theory Spec2Isabelle
  imports Main
begin

section \<open>Iterator snippets: a shallow embedding\<close>

text \<open>
  The repository holds four small Python classes that implement the iterator protocol:
  \<^verbatim>\<open>Cycle\<close>, \<^verbatim>\<open>InfiniteCounter\<close>, \<^verbatim>\<open>FileIterator\<close> and \<^verbatim>\<open>BinaryTree\<close>.
  An object is a record of its attributes. A method that mutates \<^verbatim>\<open>self\<close> takes the
  object and returns it updated, beside its result. A raised exception is the left
  summand of the result; the object returned beside it is the object as the exception
  left it.
\<close>

datatype error =
    StopIteration
  | IndexError
  | ZeroDivisionError
  | FileNotFoundError
  | ValueError
  | AttributeError
  | RecursionError

subsection \<open>Calling \<^verbatim>\<open>next\<close> repeatedly\<close>

text \<open>
  \<open>calls step n s\<close> calls the method \<open>step\<close> on the object \<open>s\<close> \<open>n\<close> times in a row,
  whatever each call returns or raises (as \<^verbatim>\<open>next(it)\<close> inside \<^verbatim>\<open>try\<close> would), and gives
  the results in order and the object after the last call.
\<close>

fun calls :: "('s \<Rightarrow> 'r \<times> 's) \<Rightarrow> nat \<Rightarrow> 's \<Rightarrow> 'r list \<times> 's" where
  "calls step 0 s = ([], s)"
| "calls step (Suc n) s =
     (case step s of (r, s') \<Rightarrow>
        (case calls step n s' of (rs, s'') \<Rightarrow> (r # rs, s'')))"

subsection \<open>Python list indexing\<close>

text \<open>
  \<^verbatim>\<open>xs[i]\<close>: an index from \<open>-len\<close> up to \<open>-1\<close> counts from the end, and an index out of
  range raises \<^verbatim>\<open>IndexError\<close>.
\<close>

definition getitem :: "'a list \<Rightarrow> int \<Rightarrow> error + 'a" where
  "getitem xs i =
     (if 0 \<le> i \<and> i < int (length xs) then Inr (xs ! nat i)
      else if i < 0 \<and> - int (length xs) \<le> i then Inr (xs ! nat (int (length xs) + i))
      else Inl IndexError)"

text \<open>
  \<^verbatim>\<open>a % b\<close> on Python's \<^verbatim>\<open>int\<close>: the result has the sign of \<open>b\<close>, as \<open>mod\<close> on \<open>int\<close>
  has, and \<open>b = 0\<close> raises \<^verbatim>\<open>ZeroDivisionError\<close>.
\<close>

definition py_mod :: "int \<Rightarrow> int \<Rightarrow> error + int" where
  "py_mod a b = (if b = 0 then Inl ZeroDivisionError else Inr (a mod b))"

subsection \<open>\<^verbatim>\<open>cycle.py\<close>\<close>

record 'a Cycle =
  data :: "'a list"
  index :: int

definition Cycle_init :: "'a list \<Rightarrow> 'a Cycle" where
  "Cycle_init d = \<lparr>data = d, index = 0\<rparr>"

definition Cycle_iter :: "'a Cycle \<Rightarrow> 'a Cycle" where
  "Cycle_iter self = self"

text \<open>
  \<^verbatim>\<open>__next__\<close>: \<^verbatim>\<open>not self.data\<close> holds of the empty list only. Python's \<^verbatim>\<open>%\<close> with a
  positive right operand gives a result from 0 up to the operand, as \<open>mod\<close> on \<open>int\<close>
  does. The index is bumped only after the element has been read.
\<close>

definition Cycle_next :: "'a Cycle \<Rightarrow> (error + 'a) \<times> 'a Cycle" where
  "Cycle_next self =
     (if data self = [] then (Inl StopIteration, self)
      else (case py_mod (index self) (int (length (data self))) of
              Inl e \<Rightarrow> (Inl e, self)
            | Inr k \<Rightarrow>
                (case getitem (data self) k of
                   Inl e \<Rightarrow> (Inl e, self)
                 | Inr result \<Rightarrow> (Inr result, self\<lparr>index := index self + 1\<rparr>))))"

subsection \<open>\<^verbatim>\<open>infinite_counter.py\<close>\<close>

text \<open>The counter holds a Python \<^verbatim>\<open>int\<close>, which is unbounded.\<close>

record InfiniteCounter =
  current :: int

definition InfiniteCounter_init :: "int \<Rightarrow> InfiniteCounter" where
  "InfiniteCounter_init start = \<lparr>current = start\<rparr>"

text \<open>The constructor's default argument, \<^verbatim>\<open>start=0\<close>.\<close>

definition InfiniteCounter_init_default :: InfiniteCounter where
  "InfiniteCounter_init_default = InfiniteCounter_init 0"

definition InfiniteCounter_iter :: "InfiniteCounter \<Rightarrow> InfiniteCounter" where
  "InfiniteCounter_iter self = self"

definition InfiniteCounter_next :: "InfiniteCounter \<Rightarrow> (error + int) \<times> InfiniteCounter" where
  "InfiniteCounter_next self =
     (let current_value = current self
      in (Inr current_value, self\<lparr>current := current self + 1\<rparr>))"

subsection \<open>\<^verbatim>\<open>treenode.py\<close>\<close>

text \<open>
  A \<^verbatim>\<open>TreeNode\<close> has a value and two children, each \<^verbatim>\<open>None\<close> or a node. The datatype
  holds finite trees only: a node reachable from itself is not a value of it.
\<close>

datatype 'a TreeNode =
  TreeNode (left: "'a TreeNode option") (val: 'a) (right: "'a TreeNode option")


record 'a BinaryTree =
  root :: "'a TreeNode option"


text \<open>
  \<^verbatim>\<open>in_order_traversal\<close> is a generator function: calling it runs none of its body and
  returns a generator object, whose \<^verbatim>\<open>__next__\<close> runs the body up to the next
  \<^verbatim>\<open>yield\<close>. A generator object is the place where its frame is suspended:
  \<^item> \<open>Created node\<close>: not started, with its argument;
  \<^item> \<open>YieldFromLeft sub node\<close>: inside \<^verbatim>\<open>yield from self.in_order_traversal(node.left)\<close>,
    delegating to the generator \<open>sub\<close>;
  \<^item> \<open>YieldedVal node\<close>: suspended at \<^verbatim>\<open>yield node.val\<close>;
  \<^item> \<open>YieldFromRight sub\<close>: inside \<^verbatim>\<open>yield from self.in_order_traversal(node.right)\<close>;
  \<^item> \<open>Finished\<close>: the body has returned.
\<close>

datatype 'a generator =
    Created "'a TreeNode option"
  | YieldFromLeft "'a generator" "'a TreeNode"
  | YieldedVal "'a TreeNode"
  | YieldFromRight "'a generator"
  | Finished

definition in_order_traversal :: "'a TreeNode option \<Rightarrow> 'a generator" where
  "in_order_traversal node = Created node"

definition BinaryTree_iter :: "'a BinaryTree \<Rightarrow> 'a generator" where
  "BinaryTree_iter self = in_order_traversal (root self)"

text \<open>
  \<^verbatim>\<open>yield from sub\<close> in the frame of \<open>node\<close>, given what \<^verbatim>\<open>next(sub)\<close> did: a value of the
  inner generator is passed on; when the inner generator raises \<^verbatim>\<open>StopIteration\<close> the
  body goes on with the next statement; any other exception leaves through the frame
  and finishes it. After the left subtree the next statement is \<^verbatim>\<open>yield node.val\<close>; after
  the right subtree the body returns, which raises \<^verbatim>\<open>StopIteration\<close>.
\<close>

definition yield_from_left ::
  "(error + 'a) \<times> 'a generator \<Rightarrow> 'a TreeNode \<Rightarrow> (error + 'a) \<times> 'a generator" where
  "yield_from_left r node =
     (case r of
        (Inr v, sub') \<Rightarrow> (Inr v, YieldFromLeft sub' node)
      | (Inl StopIteration, sub') \<Rightarrow> (Inr (val node), YieldedVal node)
      | (Inl e, sub') \<Rightarrow> (Inl e, Finished))"

definition yield_from_right ::
  "(error + 'a) \<times> 'a generator \<Rightarrow> (error + 'a) \<times> 'a generator" where
  "yield_from_right r =
     (case r of
        (Inr v, sub') \<Rightarrow> (Inr v, YieldFromRight sub')
      | (Inl e, sub') \<Rightarrow> (Inl e, Finished))"

text \<open>
  \<^verbatim>\<open>__next__\<close> of the generator object. Resuming a generator runs its frame on the
  interpreter's stack, and the frame of a generator that delegates with \<^verbatim>\<open>yield from\<close>
  stays there while the inner generator runs: a traversal that is \<open>n\<close> nodes deep
  in the tree holds \<open>n\<close> frames. The interpreter refuses to enter a frame beyond its
  recursion limit and raises \<^verbatim>\<open>RecursionError\<close> instead. The first argument, \<open>avail\<close>, is the
  number of frames that it will still enter where \<^verbatim>\<open>__next__\<close> is called: the recursion
  limit less the depth of the caller. A finished generator raises \<^verbatim>\<open>StopIteration\<close>
  without entering a frame. In the body, \<^verbatim>\<open>if node:\<close> fails on \<^verbatim>\<open>None\<close> only (a \<^verbatim>\<open>TreeNode\<close>
  defines neither \<^verbatim>\<open>__bool__\<close> nor \<^verbatim>\<open>__len__\<close>), and then the body returns.
\<close>

fun generator_next :: "nat \<Rightarrow> 'a generator \<Rightarrow> (error + 'a) \<times> 'a generator" where
  "generator_next avail Finished = (Inl StopIteration, Finished)"
| "generator_next 0 g = (Inl RecursionError, Finished)"
| "generator_next (Suc d) (Created None) = (Inl StopIteration, Finished)"
| "generator_next (Suc d) (Created (Some node)) =
     yield_from_left (generator_next d (in_order_traversal (left node))) node"
| "generator_next (Suc d) (YieldFromLeft sub node) =
     yield_from_left (generator_next d sub) node"
| "generator_next (Suc d) (YieldedVal node) =
     yield_from_right (generator_next d (in_order_traversal (right node)))"
| "generator_next (Suc d) (YieldFromRight sub) =
     yield_from_right (generator_next d sub)"



fun height :: "'a TreeNode option \<Rightarrow> nat" where
  "height None = 0"
| "height (Some (TreeNode l v r)) = Suc (max (height l) (height r))"

text \<open>
  The walk with \<open>avail\<close> frames: the values reached before a frame is refused, and
  whether one is refused.
\<close>

fun bounded_walk :: "nat \<Rightarrow> 'a TreeNode option \<Rightarrow> 'a list \<times> bool" where
  "bounded_walk 0 t = ([], True)"
| "bounded_walk (Suc d) None = ([], False)"
| "bounded_walk (Suc d) (Some (TreeNode l v r)) =
     (case bounded_walk d l of
        (xs, True) \<Rightarrow> (xs, True)
      | (xs, False) \<Rightarrow> (case bounded_walk d r of (ys, f) \<Rightarrow> (xs @ [v] @ ys, f)))"

text \<open>
  What a generator object has still to do with \<open>avail\<close> frames, read off its suspended
  frame: the values it will yield, and whether \<^verbatim>\<open>RecursionError\<close> ends them.
\<close>

fun remaining :: "nat \<Rightarrow> 'a generator \<Rightarrow> 'a list \<times> bool" where
  "remaining avail Finished = ([], False)"
| "remaining avail (Created t) = bounded_walk avail t"
| "remaining 0 g = ([], True)"
| "remaining (Suc d) (YieldFromLeft sub node) =
     (case remaining d sub of
        (xs, True) \<Rightarrow> (xs, True)
      | (xs, False) \<Rightarrow>
          (case bounded_walk d (right node) of (ys, f) \<Rightarrow> (xs @ [val node] @ ys, f)))"
| "remaining (Suc d) (YieldedVal node) = bounded_walk d (right node)"
| "remaining (Suc d) (YieldFromRight sub) = remaining d sub"

lemma generator_next_remaining:
  "(case remaining avail g of
      ([], False) \<Rightarrow> generator_next avail g = (Inl StopIteration, Finished)
    | ([], True) \<Rightarrow> generator_next avail g = (Inl RecursionError, Finished)
    | (x # xs, f) \<Rightarrow>
        fst (generator_next avail g) = Inr x
        \<and> remaining avail (snd (generator_next avail g)) = (xs, f))"
proof (induction avail g rule: generator_next.induct)
  case (4 d node)
  obtain l v r where node: "node = TreeNode l v r" by (cases node)
  obtain xs f where rl: "bounded_walk d l = (xs, f)" by (cases "bounded_walk d l")
  obtain ys f' where rr: "bounded_walk d r = (ys, f')" by (cases "bounded_walk d r")
  from "4.IH" node rl rr show ?case
    by (cases xs; cases f; cases "generator_next d (Created l)")
       (auto simp: in_order_traversal_def yield_from_left_def)
next
  case (5 d sub node)
  obtain xs f where rl: "remaining d sub = (xs, f)" by (cases "remaining d sub")
  obtain ys f' where rr: "bounded_walk d (right node) = (ys, f')"
    by (cases "bounded_walk d (right node)")
  from "5.IH" rl rr show ?case
    by (cases xs; cases f; cases "generator_next d sub")
       (auto simp: yield_from_left_def)
next
  case (6 d node)
  obtain ys f' where rr: "bounded_walk d (right node) = (ys, f')"
    by (cases "bounded_walk d (right node)")
  from "6.IH" rr show ?case
    by (cases ys; cases f'; cases "generator_next d (Created (right node))")
       (auto simp: in_order_traversal_def yield_from_right_def)
next
  case (7 d sub)
  obtain ys f' where rr: "remaining d sub = (ys, f')" by (cases "remaining d sub")
  from "7.IH" rr show ?case
    by (cases ys; cases f'; cases "generator_next d sub")
       (auto simp: yield_from_right_def)
qed simp_all

lemma generator_next_yields:
  assumes "generator_next avail g = (Inr v, g')"
  shows "fst (remaining avail g) = v # fst (remaining avail g')"
proof -
  obtain xs f where r: "remaining avail g = (xs, f)" by (cases "remaining avail g")
  with assms generator_next_remaining [of avail g] show ?thesis
    by (cases xs; cases f) simp_all
qed

text \<open>
  The loop \<^verbatim>\<open>for value in tree: print(value)\<close>, from the generator that \<^verbatim>\<open>iter(tree)\<close>
  returned, run where \<open>avail\<close> frames are left: \<open>out\<close> is what has been printed so far.
  The loop ends on \<^verbatim>\<open>StopIteration\<close>; another exception leaves through it.
\<close>

function for_each :: "nat \<Rightarrow> 'a generator \<Rightarrow> 'a list \<Rightarrow> error option \<times> 'a list" where
  "for_each avail g out =
     (case generator_next avail g of
        (Inr v, g') \<Rightarrow> for_each avail g' (out @ [v])
      | (Inl StopIteration, g') \<Rightarrow> (None, out)
      | (Inl e, g') \<Rightarrow> (Some e, out))"
  by pat_completeness auto
termination
proof (relation "measure (\<lambda>(avail, g, out). length (fst (remaining avail g)))")
  show "wf (measure (\<lambda>(avail, g, out). length (fst (remaining avail g))))" by simp
next
  fix avail :: nat and g g' :: "'a generator" and out :: "'a list" and r v
  assume "(r, g') = generator_next avail g" and "r = Inr v"
  then have "generator_next avail g = (Inr v, g')" by simp
  then have "fst (remaining avail g) = v # fst (remaining avail g')"
    by (rule generator_next_yields)
  then show "((avail, g', out @ [v]), (avail, g, out))
      \<in> measure (\<lambda>(avail, g, out). length (fst (remaining avail g)))"
    by simp
qed

declare for_each.simps [simp del]




subsection \<open>\<^verbatim>\<open>file_iterator.py\<close>\<close>

text \<open>
  The file system is a map from paths to the text of each file, as \<^verbatim>\<open>open(path, 'r')\<close>
  hands it to the reader: decoded, and with every line ending already translated to
  \<open>\<newline>\<close>. A character is a code point below 256. Beside the files the world keeps a
  trace of what happened to file handles, so that acquiring and releasing can be counted;
  the program never reads the trace.
\<close>

datatype event = Opened string | OpenFailed string | Closed string

record world =
  files :: "string \<Rightarrow> string option"
  trace :: "event list"

text \<open>A text file object: its path, the text not read yet, and whether it is closed.\<close>

record file_obj =
  name :: string
  buffer :: string
  closed :: bool

text \<open>\<^verbatim>\<open>open(path, 'r')\<close>: a missing file raises \<^verbatim>\<open>FileNotFoundError\<close>.\<close>

definition py_open :: "world \<Rightarrow> string \<Rightarrow> (error + file_obj) \<times> world" where
  "py_open w path =
     (case files w path of
        None \<Rightarrow> (Inl FileNotFoundError, w\<lparr>trace := trace w @ [OpenFailed path]\<rparr>)
      | Some body \<Rightarrow>
          (Inr \<lparr>name = path, buffer = body, closed = False\<rparr>,
           w\<lparr>trace := trace w @ [Opened path]\<rparr>))"

text \<open>
  \<open>split_line body\<close> is the line that \<^verbatim>\<open>readline\<close> returns on the text \<open>body\<close>, up to and
  with the first \<open>\<newline>\<close> (or all of \<open>body\<close> when it has none), and the text that stays
  unread.
\<close>

fun split_line :: "string \<Rightarrow> string \<times> string" where
  "split_line [] = ([], [])"
| "split_line (c # cs) =
     (if c = CHR 0x0A then ([c], cs)
      else (case split_line cs of (line, rest) \<Rightarrow> (c # line, rest)))"

text \<open>
  \<^verbatim>\<open>f.readline()\<close>: on a closed file it raises \<^verbatim>\<open>ValueError\<close> (I/O operation on closed
  file); at the end of the file it returns the empty string.
\<close>

definition readline :: "file_obj \<Rightarrow> (error + string) \<times> file_obj" where
  "readline f =
     (if closed f then (Inl ValueError, f)
      else (case split_line (buffer f) of (line, rest) \<Rightarrow> (Inr line, f\<lparr>buffer := rest\<rparr>)))"

text \<open>\<^verbatim>\<open>f.close()\<close>: closing a closed file does nothing.\<close>

definition close :: "file_obj \<Rightarrow> world \<Rightarrow> file_obj \<times> world" where
  "close f w =
     (if closed f then (f, w)
      else (f\<lparr>closed := True\<rparr>, w\<lparr>trace := trace w @ [Closed (name f)]\<rparr>))"

text \<open>
  \<^verbatim>\<open>str.isspace\<close> on one character, for the code points below 256: tab, line feed,
  vertical tab, form feed, carriage return, the four separators 0x1C to 0x1F, space,
  next line (0x85) and no-break space (0xA0).
\<close>

definition isspace :: "char \<Rightarrow> bool" where
  "isspace c =
     (c = CHR 0x09 \<or> c = CHR 0x0A \<or> c = CHR 0x0B \<or> c = CHR 0x0C \<or> c = CHR 0x0D
      \<or> c = CHR 0x1C \<or> c = CHR 0x1D \<or> c = CHR 0x1E \<or> c = CHR 0x1F \<or> c = CHR 0x20
      \<or> c = CHR 0x85 \<or> c = CHR 0xA0)"

text \<open>\<^verbatim>\<open>s.strip()\<close> with no argument drops the whitespace at both ends.\<close>

definition strip :: "string \<Rightarrow> string" where
  "strip s = rev (dropWhile isspace (rev (dropWhile isspace s)))"

text \<open>
  The attribute \<^verbatim>\<open>self.file\<close> exists only once \<^verbatim>\<open>__iter__\<close> has set it: \<open>None\<close> is the
  missing attribute. The file object is referenced from this attribute alone, so it is
  kept inside the record.
\<close>

record FileIterator =
  filepath :: string
  "file" :: "file_obj option"

definition FileIterator_init :: "string \<Rightarrow> FileIterator" where
  "FileIterator_init path = \<lparr>filepath = path, file = None\<rparr>"

text \<open>
  \<^verbatim>\<open>__iter__\<close>: when \<^verbatim>\<open>open\<close> raises, the assignment to \<^verbatim>\<open>self.file\<close> does not happen. The
  method returns \<^verbatim>\<open>self\<close>, which is the object in the state returned.
\<close>

definition FileIterator_iter ::
  "world \<times> FileIterator \<Rightarrow> (error + unit) \<times> world \<times> FileIterator" where
  "FileIterator_iter s =
     (case s of (w, self) \<Rightarrow>
        (case py_open w (filepath self) of
           (Inl e, w') \<Rightarrow> (Inl e, w', self)
         | (Inr f, w') \<Rightarrow> (Inr (), w', self\<lparr>file := Some f\<rparr>)))"

definition FileIterator_next ::
  "world \<times> FileIterator \<Rightarrow> (error + string) \<times> world \<times> FileIterator" where
  "FileIterator_next s =
     (case s of (w, self) \<Rightarrow>
        (case file self of
           None \<Rightarrow> (Inl AttributeError, w, self)
         | Some f \<Rightarrow>
             (case readline f of
                (Inl e, f') \<Rightarrow> (Inl e, w, self\<lparr>file := Some f'\<rparr>)
              | (Inr line, f') \<Rightarrow>
                  if line = [] then
                    (case close f' w of (f'', w') \<Rightarrow>
                       (Inl StopIteration, w', self\<lparr>file := Some f''\<rparr>))
                  else (Inr (strip line), w, self\<lparr>file := Some f'\<rparr>))))"

text \<open>The length of the text that the iterator's file object has not read yet.\<close>

definition unread :: "world \<times> FileIterator \<Rightarrow> nat" where
  "unread s = (case file (snd s) of None \<Rightarrow> 0 | Some f \<Rightarrow> length (buffer f))"

lemma split_line_append: "fst (split_line body) @ snd (split_line body) = body"
  by (induction body) (auto split: prod.splits)

lemma split_line_empty: "fst (split_line body) = [] \<longleftrightarrow> body = []"
  by (cases body) (auto split: prod.splits)

lemma FileIterator_next_unread:
  assumes "FileIterator_next s = (Inr x, s')"
  shows "unread s' < unread s"
proof -
  obtain w self where s: "s = (w, self)" by (cases s)
  from assms s obtain f where f: "file self = Some f"
    by (cases "file self") (simp_all add: FileIterator_next_def)
  from assms s f have op: "\<not> closed f"
    by (cases "closed f") (simp_all add: FileIterator_next_def readline_def)
  let ?line = "fst (split_line (buffer f))" and ?rest = "snd (split_line (buffer f))"
  from assms s f op have ne: "?line \<noteq> []" and s': "s' = (w, self\<lparr>file := Some (f\<lparr>buffer := ?rest\<rparr>)\<rparr>)"
    by (auto simp: FileIterator_next_def readline_def split: prod.splits if_splits)
  have "length ?line + length ?rest = length (buffer f)"
    using split_line_append [of "buffer f"] length_append [of ?line ?rest] by simp
  with ne have "length ?rest < length (buffer f)"
    by (cases ?line) simp_all
  with s f s' show ?thesis
    by (simp add: unread_def)
qed

text \<open>
  The loop \<^verbatim>\<open>for line in file_iter: print(line)\<close> after \<^verbatim>\<open>iter(file_iter)\<close> has returned:
  \<open>out\<close> is what has been printed so far.
\<close>

function for_lines_body ::
  "world \<times> FileIterator \<Rightarrow> string list \<Rightarrow> (error option \<times> string list) \<times> world \<times> FileIterator"
  where
  "for_lines_body s out =
     (case FileIterator_next s of
        (Inr line, s') \<Rightarrow> for_lines_body s' (out @ [line])
      | (Inl StopIteration, s') \<Rightarrow> ((None, out), s')
      | (Inl e, s') \<Rightarrow> ((Some e, out), s'))"
  by pat_completeness auto
termination
proof (relation "measure (\<lambda>(s, out). unread s)")
  show "wf (measure (\<lambda>(s, out). unread s))" by simp
next
  fix s s' :: "world \<times> FileIterator" and out :: "string list" and r line
  assume "(r, s') = FileIterator_next s" and "r = Inr line"
  then have "FileIterator_next s = (Inr line, s')" by simp
  then have "unread s' < unread s" by (rule FileIterator_next_unread)
  then show "((s', out @ [line]), (s, out)) \<in> measure (\<lambda>(s, out). unread s)"
    by simp
qed

declare for_lines_body.simps [simp del]

text \<open>
  The whole \<^verbatim>\<open>for\<close> statement: it calls \<^verbatim>\<open>iter(file_iter)\<close> first, and an exception raised
  there leaves through the statement before \<^verbatim>\<open>__next__\<close> is called.
\<close>

definition for_lines ::
  "world \<times> FileIterator \<Rightarrow> (error option \<times> string list) \<times> world \<times> FileIterator" where
  "for_lines s =
     (case FileIterator_iter s of
        (Inl e, s') \<Rightarrow> ((Some e, []), s')
      | (Inr u, s') \<Rightarrow> for_lines_body s' [])"

text \<open>
  The usage lines of \<^verbatim>\<open>file_iterator.py\<close>: a world whose only file, \<^verbatim>\<open>example.txt\<close>, has
  the three lines a, b and c, and the iterator constructed over that path.
\<close>

definition usage_world :: world where
  "usage_world = \<lparr>files = [''example.txt'' \<mapsto> ''a\<newline>b\<newline>c\<newline>''], trace = []\<rparr>"

definition file_iter :: FileIterator where
  "file_iter = FileIterator_init ''example.txt''"

text \<open>An open file object whose next line holds nothing but a space.\<close>

definition blank_line_file :: file_obj where
  "blank_line_file = \<lparr>name = ''example.txt'', buffer = '' \<newline>  x  \<newline>'', closed = False\<rparr>"

section \<open>Properties of the in-memory producers\<close>

lemma fst_calls_Suc:
  "fst (calls step (Suc n) s) = fst (step s) # fst (calls step n (snd (step s)))"
  by (simp split: prod.splits)

lemma snd_calls_Suc:
  "snd (calls step (Suc n) s) = snd (calls step n (snd (step s)))"
  by (simp split: prod.splits)

lemma length_calls: "length (fst (calls step n s)) = n"
  by (induction n arbitrary: s) (simp_all add: fst_calls_Suc del: calls.simps(2))

lemma getitem_in_range: "0 \<le> i \<Longrightarrow> i < int (length xs) \<Longrightarrow> getitem xs i = Inr (xs ! nat i)"
  by (simp add: getitem_def)

lemma Cycle_next_nonempty:
  assumes "data c \<noteq> []"
  shows "Cycle_next c =
    (Inr (data c ! nat (index c mod int (length (data c)))), c\<lparr>index := index c + 1\<rparr>)"
proof -
  from assms have pos: "0 < int (length (data c))" by simp
  have "getitem (data c) (index c mod int (length (data c)))
        = Inr (data c ! nat (index c mod int (length (data c))))"
    using pos by (intro getitem_in_range) simp_all
  with assms show ?thesis by (simp add: Cycle_next_def py_mod_def)
qed

lemma calls_Cycle_state:
  "d \<noteq> [] \<Longrightarrow> data c = d \<Longrightarrow>
   snd (calls Cycle_next n c) = c\<lparr>index := index c + int n\<rparr>"
proof (induction n arbitrary: c)
  case 0
  then show ?case by simp
next
  case (Suc n)
  let ?c' = "c\<lparr>index := index c + 1\<rparr>"
  have step: "Cycle_next c = (Inr (d ! nat (index c mod int (length d))), ?c')"
    using Suc.prems Cycle_next_nonempty [of c] by simp
  have "snd (calls Cycle_next n ?c') = ?c'\<lparr>index := index ?c' + int n\<rparr>"
    using Suc.prems by (intro Suc.IH) simp_all
  then show ?case
    by (simp add: snd_calls_Suc step del: calls.simps(2))
qed

lemma calls_Cycle_results:
  "d \<noteq> [] \<Longrightarrow> data c = d \<Longrightarrow> 0 \<le> index c \<Longrightarrow>
   fst (calls Cycle_next n c) = map (\<lambda>i. Inr (d ! ((nat (index c) + i) mod length d))) [0..<n]"
proof (induction n arbitrary: c)
  case 0
  then show ?case by simp
next
  case (Suc n)
  let ?c' = "c\<lparr>index := index c + 1\<rparr>"
  have idx: "nat (index c mod int (length d)) = nat (index c) mod length d"
    using Suc.prems by (simp add: nat_mod_distrib)
  have step: "Cycle_next c = (Inr (d ! (nat (index c) mod length d)), ?c')"
    using Suc.prems Cycle_next_nonempty [of c] idx by simp
  have "fst (calls Cycle_next n ?c')
        = map (\<lambda>i. Inr (d ! ((nat (index ?c') + i) mod length d))) [0..<n]"
    using Suc.prems by (intro Suc.IH) simp_all
  moreover have "nat (index c + 1) = Suc (nat (index c))"
    using Suc.prems by simp
  ultimately have rest: "fst (calls Cycle_next n ?c')
        = map (\<lambda>i. Inr (d ! ((nat (index c) + Suc i) mod length d))) [0..<n]"
    by simp
  have "[0..<Suc n] = 0 # map Suc [0..<n]"
    by (simp add: upt_conv_Cons map_Suc_upt del: upt_Suc)
  then show ?case
    using rest by (simp add: fst_calls_Suc step comp_def del: calls.simps(2) upt_Suc)
qed

lemma Cycle_next_index_le: "index c \<le> index (snd (Cycle_next c))"
  by (cases "data c = []") (simp_all add: Cycle_next_nonempty, simp add: Cycle_next_def)

lemma calls_Cycle_index_le: "index c \<le> index (snd (calls Cycle_next n c))"
proof (induction n arbitrary: c)
  case 0
  then show ?case by simp
next
  case (Suc n)
  have "index c \<le> index (snd (Cycle_next c))"
    by (rule Cycle_next_index_le)
  also have "\<dots> \<le> index (snd (calls Cycle_next n (snd (Cycle_next c))))"
    by (rule Suc.IH)
  finally show ?case
    by (simp add: snd_calls_Suc del: calls.simps(2))
qed

lemma calls_Cycle_empty:
  "calls Cycle_next n (Cycle_init ([] :: 'a list))
     = (replicate n (Inl StopIteration), Cycle_init ([] :: 'a list))"
proof (induction n)
  case 0
  then show ?case by simp
next
  case (Suc n)
  have "Cycle_next (Cycle_init ([] :: 'a list)) = (Inl StopIteration, Cycle_init [])"
    by (simp add: Cycle_next_def Cycle_init_def)
  with Suc show ?case by simp
qed

lemma InfiniteCounter_next_eq:
  "InfiniteCounter_next c = (Inr (current c), c\<lparr>current := current c + 1\<rparr>)"
  by (simp add: InfiniteCounter_next_def)

lemma calls_InfiniteCounter:
  "calls InfiniteCounter_next k c =
     (map (\<lambda>i. Inr (current c + int i)) [0..<k], c\<lparr>current := current c + int k\<rparr>)"
proof (induction k arbitrary: c)
  case 0
  then show ?case by simp
next
  case (Suc k)
  let ?c' = "c\<lparr>current := current c + 1\<rparr>"
  have step: "InfiniteCounter_next c = (Inr (current c), ?c')"
    by (rule InfiniteCounter_next_eq)
  have rest: "calls InfiniteCounter_next k ?c' =
     (map (\<lambda>i. Inr (current ?c' + int i)) [0..<k], ?c'\<lparr>current := current ?c' + int k\<rparr>)"
    by (rule Suc.IH)
  have "[0..<Suc k] = 0 # map Suc [0..<k]"
    by (simp add: upt_conv_Cons map_Suc_upt del: upt_Suc)
  then show ?case
    by (simp add: step rest comp_def add.assoc del: upt_Suc)
qed

text \<open>
  C2. Over a non-empty backing list \<open>C\<close>, call number \<open>n\<close> of \<^verbatim>\<open>Cycle.__next__\<close> (counting
  from 0, on a freshly constructed \<^verbatim>\<open>Cycle(C)\<close>) returns \<open>C[n mod len(C)]\<close>; the first
  \<open>n\<close> calls return exactly these elements, so none of them raises \<^verbatim>\<open>StopIteration\<close>.
\<close>

theorem Cycle_nth_element:
  assumes "C \<noteq> []"
  shows "fst (Cycle_next (snd (calls Cycle_next n (Cycle_init C)))) = Inr (C ! (n mod length C))
       \<and> fst (calls Cycle_next n (Cycle_init C)) = map (\<lambda>i. Inr (C ! (i mod length C))) [0..<n]"
proof -
  let ?c = "Cycle_init C"
  have d: "data ?c = C" and i: "index ?c = 0"
    by (simp_all add: Cycle_init_def)
  have st: "snd (calls Cycle_next n ?c) = ?c\<lparr>index := int n\<rparr>"
    using calls_Cycle_state [OF assms d, of n] i by simp
  have "nat (int n mod int (length C)) = n mod length C"
    by (simp add: nat_mod_distrib)
  then have "fst (Cycle_next (?c\<lparr>index := int n\<rparr>)) = Inr (C ! (n mod length C))"
    using assms d by (simp add: Cycle_next_nonempty)
  moreover have "fst (calls Cycle_next n ?c) = map (\<lambda>i. Inr (C ! (i mod length C))) [0..<n]"
    using calls_Cycle_results [OF assms d, of n] i by simp
  ultimately show ?thesis
    by (simp add: st)
qed

text \<open>
  The usage lines of \<^verbatim>\<open>cycle.py\<close>: ten calls on \<^verbatim>\<open>Cycle([1, 2, 3])\<close> print
  \<^verbatim>\<open>1 2 3 1 2 3 1 2 3 1\<close>, and the call after them returns 2.
\<close>

theorem Cycle_nth_element_witness:
  "[1, 2, 3 :: int] \<noteq> []
   \<and> fst (Cycle_next (snd (calls Cycle_next 10 (Cycle_init [1, 2, 3 :: int])))) = Inr 2
   \<and> fst (calls Cycle_next 10 (Cycle_init [1, 2, 3 :: int]))
       = map Inr [1, 2, 3, 1, 2, 3, 1, 2, 3, 1]"
proof -
  have ne: "[1, 2, 3 :: int] \<noteq> []" by simp
  have up: "[0..<10] = [0, 1, 2, 3, 4, 5, 6, 7, 8, 9 :: nat]"
    by (simp add: upt_rec)
  show ?thesis
    using Cycle_nth_element [OF ne, of 10] by (simp add: up)
qed

text \<open>
  C3. On a \<^verbatim>\<open>Cycle\<close> constructed over the empty list, the very first \<^verbatim>\<open>__next__\<close> raises
  \<^verbatim>\<open>StopIteration\<close> (and no other exception), and leaves the object as it was.
\<close>

theorem Cycle_empty_first_call:
  "Cycle_next (Cycle_init []) = (Inl StopIteration, Cycle_init [])"
  by (simp add: Cycle_next_def Cycle_init_def)

text \<open>
  C4. On \<^verbatim>\<open>InfiniteCounter(s)\<close>, call number \<open>k\<close> of \<^verbatim>\<open>__next__\<close> (counting from 0) returns
  \<open>s + k\<close>; the first \<open>k\<close> calls return \<open>s, s + 1, \<dots>, s + k - 1\<close>; and \<^verbatim>\<open>__next__\<close> raises
  nothing on any counter \<open>c\<close>, \<^verbatim>\<open>StopIteration\<close> included.
\<close>

theorem InfiniteCounter_kth_value:
  "fst (InfiniteCounter_next (snd (calls InfiniteCounter_next k (InfiniteCounter_init s))))
     = Inr (s + int k)
   \<and> fst (calls InfiniteCounter_next k (InfiniteCounter_init s))
     = map (\<lambda>i. Inr (s + int i)) [0..<k]
   \<and> fst (InfiniteCounter_next c) \<noteq> Inl e"
proof -
  let ?c = "InfiniteCounter_init s"
  have "calls InfiniteCounter_next k ?c =
     (map (\<lambda>i. Inr (s + int i)) [0..<k], ?c\<lparr>current := s + int k\<rparr>)"
    using calls_InfiniteCounter [of k ?c] by (simp add: InfiniteCounter_init_def)
  moreover have "fst (InfiniteCounter_next (?c\<lparr>current := s + int k\<rparr>)) = Inr (s + int k)"
    using InfiniteCounter_next_eq [of "?c\<lparr>current := s + int k\<rparr>"] by simp
  moreover have "fst (InfiniteCounter_next c) \<noteq> Inl e"
    using InfiniteCounter_next_eq [of c] by simp
  ultimately show ?thesis
    by simp
qed

text \<open>
  C9. The cursor of an in-memory producer only moves forward. A \<^verbatim>\<open>Cycle.__next__\<close> that
  returns an element leaves \<^verbatim>\<open>index\<close> strictly larger; one that raises leaves it no
  smaller, so no run of calls ever decreases it; \<^verbatim>\<open>InfiniteCounter.__next__\<close> always
  leaves \<^verbatim>\<open>current\<close> strictly larger; and \<^verbatim>\<open>__iter__\<close> of either class leaves the cursor
  alone.
\<close>

theorem cursor_moves_forward:
  "(fst (Cycle_next c) = Inr x \<longrightarrow> index c < index (snd (Cycle_next c)))
   \<and> index c \<le> index (snd (calls Cycle_next n c))
   \<and> index (Cycle_iter c) = index c
   \<and> current k < current (snd (InfiniteCounter_next k))
   \<and> current k \<le> current (snd (calls InfiniteCounter_next n k))
   \<and> current (InfiniteCounter_iter k) = current k"
proof -
  have "fst (Cycle_next c) = Inr x \<longrightarrow> index c < index (snd (Cycle_next c))"
    by (cases "data c = []") (simp_all add: Cycle_next_nonempty, simp add: Cycle_next_def)
  moreover have "index c \<le> index (snd (calls Cycle_next n c))"
    by (rule calls_Cycle_index_le)
  moreover have "current k < current (snd (InfiniteCounter_next k))"
    using InfiniteCounter_next_eq [of k] by simp
  moreover have "current k \<le> current (snd (calls InfiniteCounter_next n k))"
    using calls_InfiniteCounter [of n k] by simp
  ultimately show ?thesis
    by (simp add: Cycle_iter_def InfiniteCounter_iter_def)
qed

theorem cursor_moves_forward_witness:
  "fst (Cycle_next (Cycle_init [7, 8 :: int])) = Inr 7
   \<and> index (Cycle_init [7, 8 :: int]) < index (snd (Cycle_next (Cycle_init [7, 8 :: int])))
   \<and> index (Cycle_init [7, 8 :: int]) \<le> index (snd (calls Cycle_next 5 (Cycle_init [7, 8 :: int])))
   \<and> current (InfiniteCounter_init 10)
       < current (snd (InfiniteCounter_next (InfiniteCounter_init 10)))"
proof -
  have r: "fst (Cycle_next (Cycle_init [7, 8 :: int])) = Inr 7"
    by (simp add: Cycle_next_def Cycle_init_def py_mod_def getitem_def)
  show ?thesis
    using r cursor_moves_forward [of "Cycle_init [7, 8 :: int]" 7 5 "InfiniteCounter_init 10"]
    by simp
qed

section \<open>Properties of the tree adapter\<close>

lemma for_each_eq:
  "for_each avail g out =
     (if snd (remaining avail g) then Some RecursionError else None,
      out @ fst (remaining avail g))"
proof (induction avail g out rule: for_each.induct)
  case (1 avail g out)
  obtain xs f where r: "remaining avail g = (xs, f)" by (cases "remaining avail g")
  show ?case
  proof (cases xs)
    case Nil
    with r generator_next_remaining [of avail g] show ?thesis
      by (cases f) (simp_all add: for_each.simps [of avail g out])
  next
    case (Cons x xs')
    obtain g' where step: "generator_next avail g = (Inr x, g')"
      and r': "remaining avail g' = (xs', f)"
      using r Cons generator_next_remaining [of avail g]
      by (cases "generator_next avail g") simp
    have "for_each avail g' (out @ [x]) =
        (if snd (remaining avail g') then Some RecursionError else None,
         (out @ [x]) @ fst (remaining avail g'))"
      using step by (intro "1.IH") simp_all
    with step r r' Cons show ?thesis
      by (simp add: for_each.simps [of avail g out])
  qed
qed

lemma bounded_walk_refused: "snd (bounded_walk avail t) = (avail \<le> height t)"
proof (induction avail t rule: bounded_walk.induct)
  case (3 d l v r)
  obtain xs f where l: "bounded_walk d l = (xs, f)" by (cases "bounded_walk d l")
  obtain ys f' where r: "bounded_walk d r = (ys, f')" by (cases "bounded_walk d r")
  from "3.IH"(1) l have f: "f = (d \<le> height l)"
    by simp
  show ?case
  proof (cases f)
    case True
    with l f show ?thesis
      by (simp add: le_max_iff_disj)
  next
    case False
    with l r "3.IH"(2) [of xs False] have "f' = (d \<le> height r)"
      by simp
    with False l r f show ?thesis
      by (simp add: le_max_iff_disj)
  qed
qed simp_all


lemma remaining_BinaryTree_iter:
  "remaining avail (BinaryTree_iter t) = bounded_walk avail (root t)"
  by (simp add: BinaryTree_iter_def in_order_traversal_def)


lemma for_each_too_deep:
  assumes "avail \<le> height (root t)"
  shows "fst (for_each avail (BinaryTree_iter t) []) = Some RecursionError"
  using assms by (simp add: for_each_eq remaining_BinaryTree_iter bounded_walk_refused)










section \<open>Properties of the file iterator\<close>


lemma FileIterator_next_line:
  assumes "file self = Some f" and "\<not> closed f" and "buffer f \<noteq> []"
  shows "FileIterator_next (w, self) =
    (Inr (strip (fst (split_line (buffer f)))), w,
     self\<lparr>file := Some (f\<lparr>buffer := snd (split_line (buffer f))\<rparr>)\<rparr>)"
proof -
  from assms(3) have "fst (split_line (buffer f)) \<noteq> []"
    by (simp add: split_line_empty)
  with assms(1,2) show ?thesis
    by (auto simp: FileIterator_next_def readline_def split: prod.splits)
qed

lemma FileIterator_next_eof:
  assumes "file self = Some f" and "\<not> closed f" and "buffer f = []"
  shows "FileIterator_next (w, self) =
    (Inl StopIteration, w\<lparr>trace := trace w @ [Closed (name f)]\<rparr>,
     self\<lparr>file := Some (f\<lparr>closed := True\<rparr>)\<rparr>)"
proof -
  have "f\<lparr>buffer := []\<rparr> = f"
    using assms(3) by (cases f) simp
  with assms show ?thesis
    by (simp add: FileIterator_next_def readline_def close_def)
qed

lemma FileIterator_next_closed:
  assumes "file self = Some f" and "closed f"
  shows "FileIterator_next (w, self) = (Inl ValueError, w, self)"
proof -
  have "self\<lparr>file := Some f\<rparr> = self"
    using assms(1) by (cases self) simp
  with assms show ?thesis
    by (simp add: FileIterator_next_def readline_def)
qed

lemma FileIterator_next_unset:
  assumes "file self = None"
  shows "FileIterator_next (w, self) = (Inl AttributeError, w, self)"
  using assms by (simp add: FileIterator_next_def)

text \<open>What a call that raised StopIteration leaves behind: a closed file object.\<close>

lemma FileIterator_next_StopIteration:
  assumes "FileIterator_next s = (Inl StopIteration, s')"
  shows "\<exists>f. file (snd s') = Some f \<and> closed f"
proof -
  obtain w self where s: "s = (w, self)" by (cases s)
  show ?thesis
  proof (cases "file self")
    case None
    with assms s show ?thesis by (simp add: FileIterator_next_unset)
  next
    case (Some f)
    show ?thesis
    proof (cases "closed f")
      case True
      with assms s Some show ?thesis by (simp add: FileIterator_next_closed)
    next
      case False
      show ?thesis
      proof (cases "buffer f = []")
        case True
        with assms s Some False show ?thesis
          by (auto simp: FileIterator_next_eof)
      next
        case nonempty: False
        with assms s Some False show ?thesis
          by (simp add: FileIterator_next_line)
      qed
    qed
  qed
qed

lemma calls_FileIterator_next_closed:
  assumes "file self = Some f" and "closed f"
  shows "calls FileIterator_next n (w, self) = (replicate n (Inl ValueError), w, self)"
  by (induction n) (simp_all add: FileIterator_next_closed [OF assms] replicate_append_same)

lemma FileIterator_next_after_StopIteration:
  assumes "FileIterator_next s = (Inl StopIteration, s')"
  shows "calls FileIterator_next n s' = (replicate n (Inl ValueError), s')"
proof -
  from FileIterator_next_StopIteration [OF assms]
  obtain f where "file (snd s') = Some f" "closed f" by blast
  then show ?thesis
    using calls_FileIterator_next_closed [of "snd s'" f n "fst s'"] by simp
qed

text \<open>
  C1. A \<^verbatim>\<open>FileIterator.__next__\<close> called after \<^verbatim>\<open>StopIteration\<close> has been raised should raise
  \<^verbatim>\<open>StopIteration\<close> again, with no other exception and without opening the file again.
  The code opens nothing, but it does not raise \<^verbatim>\<open>StopIteration\<close>: over a file with the
  single line a, the first call returns a, the second raises \<^verbatim>\<open>StopIteration\<close> and closes
  the file, and the third and the fourth read the closed file and raise \<^verbatim>\<open>ValueError\<close>.
  By \<open>FileIterator_next_after_StopIteration\<close> this is so after every exhaustion. The
  other producers do raise \<^verbatim>\<open>StopIteration\<close> again: \<open>calls_Cycle_empty\<close>,
  \<open>calls_generator_next\<close>.
\<close>

theorem FileIterator_next_after_exhaustion:
  "fst (calls FileIterator_next 4
     (snd (FileIterator_iter
        (\<lparr>files = [''example.txt'' \<mapsto> ''a\<newline>''], trace = []\<rparr>,
         FileIterator_init ''example.txt''))))
   = [Inr ''a'', Inl StopIteration, Inl ValueError, Inl ValueError]"
  by (simp add: numeral_nat FileIterator_next_def FileIterator_iter_def FileIterator_init_def
      py_open_def readline_def close_def strip_def isspace_def)

lemma FileIterator_iter_found:
  assumes "files w (filepath self) = Some body"
  shows "FileIterator_iter (w, self) =
    (Inr (), w\<lparr>trace := trace w @ [Opened (filepath self)]\<rparr>,
     self\<lparr>file := Some \<lparr>name = filepath self, buffer = body, closed = False\<rparr>\<rparr>)"
  using assms by (simp add: FileIterator_iter_def py_open_def)

text \<open>
  C6. Over a file whose lines are a, b and c (with or without a line ending after the
  last one), \<^verbatim>\<open>__iter__\<close> succeeds, the first three calls of \<^verbatim>\<open>__next__\<close> return a, b and c
  in this order, and the fourth raises \<^verbatim>\<open>StopIteration\<close>. After the third call the file
  has been opened and not closed; the fourth call closes it, once.
\<close>

theorem FileIterator_three_lines:
  assumes "files w (filepath self) = Some ''a\<newline>b\<newline>c\<newline>''
         \<or> files w (filepath self) = Some ''a\<newline>b\<newline>c''"
  shows "fst (FileIterator_iter (w, self)) = Inr ()
     \<and> fst (calls FileIterator_next 4 (snd (FileIterator_iter (w, self))))
         = [Inr ''a'', Inr ''b'', Inr ''c'', Inl StopIteration]
     \<and> trace (fst (snd (calls FileIterator_next 3 (snd (FileIterator_iter (w, self))))))
         = trace w @ [Opened (filepath self)]
     \<and> trace (fst (snd (calls FileIterator_next 4 (snd (FileIterator_iter (w, self))))))
         = trace w @ [Opened (filepath self), Closed (filepath self)]"
  using assms
proof
  assume "files w (filepath self) = Some ''a\<newline>b\<newline>c\<newline>''"
  then show ?thesis
    by (simp add: FileIterator_iter_found numeral_nat FileIterator_next_def
        readline_def close_def strip_def isspace_def)
next
  assume "files w (filepath self) = Some ''a\<newline>b\<newline>c''"
  then show ?thesis
    by (simp add: FileIterator_iter_found numeral_nat FileIterator_next_def
        readline_def close_def strip_def isspace_def)
qed

text \<open>The file of the usage lines, with the lines a, b and c.\<close>

theorem FileIterator_three_lines_witness:
  "files usage_world (filepath file_iter) = Some ''a\<newline>b\<newline>c\<newline>''
   \<and> fst (calls FileIterator_next 4 (snd (FileIterator_iter (usage_world, file_iter))))
       = [Inr ''a'', Inr ''b'', Inr ''c'', Inl StopIteration]
   \<and> trace (fst (snd (calls FileIterator_next 3 (snd (FileIterator_iter (usage_world, file_iter))))))
       = [Opened ''example.txt'']
   \<and> trace (fst (snd (calls FileIterator_next 4 (snd (FileIterator_iter (usage_world, file_iter))))))
       = [Opened ''example.txt'', Closed ''example.txt'']"
proof -
  have f: "files usage_world (filepath file_iter) = Some ''a\<newline>b\<newline>c\<newline>''"
    by (simp add: usage_world_def file_iter_def FileIterator_init_def)
  have p: "filepath file_iter = ''example.txt''" and t: "trace usage_world = []"
    by (simp_all add: usage_world_def file_iter_def FileIterator_init_def)
  show ?thesis
    using f FileIterator_three_lines [of usage_world file_iter] by (simp add: p t)
qed

text \<open>
  C7. When the file does not exist, \<^verbatim>\<open>__iter__\<close> raises \<^verbatim>\<open>FileNotFoundError\<close> after one
  attempt to open it and leaves the iterator as it was. The \<^verbatim>\<open>for\<close> statement over the
  iterator ends with this exception, has received no element, and has not called
  \<^verbatim>\<open>__next__\<close>: the state is the one \<^verbatim>\<open>__iter__\<close> left.
\<close>

theorem FileIterator_iter_missing_file:
  assumes "files w (filepath self) = None"
  shows "FileIterator_iter (w, self)
         = (Inl FileNotFoundError, w\<lparr>trace := trace w @ [OpenFailed (filepath self)]\<rparr>, self)
     \<and> for_lines (w, self)
         = ((Some FileNotFoundError, []), w\<lparr>trace := trace w @ [OpenFailed (filepath self)]\<rparr>, self)"
  using assms by (simp add: for_lines_def FileIterator_iter_def py_open_def)

theorem FileIterator_iter_missing_file_witness:
  "files usage_world (filepath (FileIterator_init ''missing.txt'')) = None
   \<and> FileIterator_iter (usage_world, FileIterator_init ''missing.txt'')
       = (Inl FileNotFoundError,
          usage_world\<lparr>trace := [OpenFailed ''missing.txt'']\<rparr>, FileIterator_init ''missing.txt'')
   \<and> for_lines (usage_world, FileIterator_init ''missing.txt'')
       = ((Some FileNotFoundError, []),
          usage_world\<lparr>trace := [OpenFailed ''missing.txt'']\<rparr>, FileIterator_init ''missing.txt'')"
proof -
  have f: "files usage_world (filepath (FileIterator_init ''missing.txt'')) = None"
    by (simp add: usage_world_def FileIterator_init_def)
  have p: "filepath (FileIterator_init ''missing.txt'') = ''missing.txt''"
    and t: "trace usage_world = []"
    by (simp_all add: usage_world_def FileIterator_init_def)
  show ?thesis
    using f FileIterator_iter_missing_file [of usage_world "FileIterator_init ''missing.txt''"]
    by (simp add: p t)
qed

text \<open>The \<^verbatim>\<open>for\<close> loop of the usage lines prints a, b and c, and closes the file.\<close>

lemma for_lines_usage:
  "for_lines (usage_world, file_iter) =
     ((None, [''a'', ''b'', ''c'']),
      usage_world\<lparr>trace := [Opened ''example.txt'', Closed ''example.txt'']\<rparr>,
      file_iter\<lparr>file := Some \<lparr>name = ''example.txt'', buffer = [], closed = True\<rparr>\<rparr>)"
  by (simp add: for_lines_def for_lines_body.simps FileIterator_iter_def py_open_def
      usage_world_def file_iter_def FileIterator_init_def FileIterator_next_def
      readline_def close_def strip_def isspace_def)

lemma rev_dropWhile_takeWhile:
  "rev (dropWhile P (rev t)) @ rev (takeWhile P (rev t)) = t"
proof -
  have "rev (dropWhile P (rev t)) @ rev (takeWhile P (rev t))
        = rev (takeWhile P (rev t) @ dropWhile P (rev t))"
    by (simp only: rev_append)
  also have "\<dots> = rev (rev t)"
    by (simp only: takeWhile_dropWhile_id)
  finally show ?thesis
    by simp
qed

lemma strip_suffix:
  "strip s @ rev (takeWhile isspace (rev (dropWhile isspace s))) = dropWhile isspace s"
  unfolding strip_def by (rule rev_dropWhile_takeWhile)

lemma strip_decompose:
  "s = takeWhile isspace s @ strip s @ rev (takeWhile isspace (rev (dropWhile isspace s)))"
  by (simp only: strip_suffix takeWhile_dropWhile_id)

lemma strip_last: "strip s \<noteq> [] \<Longrightarrow> \<not> isspace (last (strip s))"
  by (simp add: strip_def last_rev hd_dropWhile)

lemma strip_hd:
  assumes "strip s \<noteq> []"
  shows "\<not> isspace (hd (strip s))"
proof -
  let ?t = "dropWhile isspace s"
  have t: "strip s @ rev (takeWhile isspace (rev ?t)) = ?t"
    by (rule strip_suffix)
  from assms have "hd (strip s @ rev (takeWhile isspace (rev ?t))) = hd (strip s)"
    by simp
  with t have "hd ?t = hd (strip s)"
    by simp
  moreover from assms t have "?t \<noteq> []"
    by (metis append_is_Nil_conv)
  ultimately show ?thesis
    using hd_dropWhile [of isspace s] by simp
qed

lemma strip_all_space:
  assumes "\<forall>c\<in>set s. isspace c"
  shows "strip s = []"
proof -
  from assms have d: "dropWhile isspace s = []"
    by simp
  show ?thesis
    unfolding strip_def d by simp
qed

text \<open>
  C10. On an open file, \<^verbatim>\<open>__next__\<close> raises \<^verbatim>\<open>StopIteration\<close> exactly when nothing is
  left to read (when \<^verbatim>\<open>readline\<close> returns the empty string); otherwise it returns the
  line read, stripped. A line of whitespace only (its line ending included) is returned
  as the empty string, and the file stays open. The stripped line is the line without a
  prefix and a suffix of whitespace, and it neither starts nor ends with whitespace.
\<close>

theorem FileIterator_next_strips:
  assumes "file self = Some f" and "\<not> closed f"
  shows "fst (FileIterator_next (w, self))
           = (if buffer f = [] then Inl StopIteration
              else Inr (strip (fst (split_line (buffer f)))))
     \<and> (fst (FileIterator_next (w, self)) = Inl StopIteration) = (buffer f = [])
     \<and> (buffer f \<noteq> [] \<and> (\<forall>c\<in>set (fst (split_line (buffer f))). isspace c)
          \<longrightarrow> FileIterator_next (w, self)
              = (Inr [], w, self\<lparr>file := Some (f\<lparr>buffer := snd (split_line (buffer f))\<rparr>)\<rparr>))
     \<and> (\<exists>pre post. fst (split_line (buffer f)) = pre @ strip (fst (split_line (buffer f))) @ post
           \<and> (\<forall>c\<in>set pre. isspace c) \<and> (\<forall>c\<in>set post. isspace c))
     \<and> (strip (fst (split_line (buffer f))) \<noteq> []
          \<longrightarrow> \<not> isspace (hd (strip (fst (split_line (buffer f)))))
            \<and> \<not> isspace (last (strip (fst (split_line (buffer f))))))"
proof -
  let ?raw = "fst (split_line (buffer f))"
  have a: "fst (FileIterator_next (w, self))
           = (if buffer f = [] then Inl StopIteration else Inr (strip ?raw))"
    using assms by (simp add: FileIterator_next_eof FileIterator_next_line)
  have c: "buffer f \<noteq> [] \<and> (\<forall>c\<in>set ?raw. isspace c)
          \<longrightarrow> FileIterator_next (w, self)
              = (Inr [], w, self\<lparr>file := Some (f\<lparr>buffer := snd (split_line (buffer f))\<rparr>)\<rparr>)"
    using assms by (simp add: FileIterator_next_line strip_all_space)
  let ?pre = "takeWhile isspace ?raw"
  let ?post = "rev (takeWhile isspace (rev (dropWhile isspace ?raw)))"
  have "?raw = ?pre @ strip ?raw @ ?post"
    by (rule strip_decompose)
  moreover have "\<forall>c\<in>set ?pre. isspace c"
    by (auto dest: set_takeWhileD)
  moreover have "\<forall>c\<in>set ?post. isspace c"
    by (auto dest: set_takeWhileD)
  ultimately have d: "\<exists>pre post. ?raw = pre @ strip ?raw @ post
           \<and> (\<forall>c\<in>set pre. isspace c) \<and> (\<forall>c\<in>set post. isspace c)"
    by blast
  have e: "strip ?raw \<noteq> [] \<longrightarrow> \<not> isspace (hd (strip ?raw)) \<and> \<not> isspace (last (strip ?raw))"
    using strip_hd [of ?raw] strip_last [of ?raw] by blast
  from a have b: "(fst (FileIterator_next (w, self)) = Inl StopIteration) = (buffer f = [])"
    by simp
  from a b c d e show ?thesis
    by blast
qed

text \<open>
  A line of one space and its line ending is returned as the empty string; the line
  after it, \<open>x\<close> between spaces, is returned as \<open>x\<close>.
\<close>

theorem FileIterator_next_strips_witness:
  "file (FileIterator_init ''example.txt''\<lparr>file := Some blank_line_file\<rparr>) = Some blank_line_file
   \<and> \<not> closed blank_line_file
   \<and> buffer blank_line_file \<noteq> []
   \<and> fst (split_line (buffer blank_line_file)) = '' \<newline>''
   \<and> isspace CHR '' '' \<and> isspace CHR ''\<newline>''
   \<and> FileIterator_next (usage_world, FileIterator_init ''example.txt''\<lparr>file := Some blank_line_file\<rparr>)
       = (Inr [], usage_world,
          FileIterator_init ''example.txt''
            \<lparr>file := Some (blank_line_file\<lparr>buffer := ''  x  \<newline>''\<rparr>)\<rparr>)
   \<and> strip (fst (split_line (buffer (blank_line_file\<lparr>buffer := ''  x  \<newline>''\<rparr>)))) \<noteq> []
   \<and> fst (FileIterator_next (usage_world,
          FileIterator_init ''example.txt''
            \<lparr>file := Some (blank_line_file\<lparr>buffer := ''  x  \<newline>''\<rparr>)\<rparr>)) = Inr ''x''
   \<and> \<not> isspace (hd (strip (fst (split_line (buffer (blank_line_file\<lparr>buffer := ''  x  \<newline>''\<rparr>))))))
   \<and> \<not> isspace (last (strip (fst (split_line (buffer (blank_line_file\<lparr>buffer := ''  x  \<newline>''\<rparr>))))))"
proof -
  let ?self = "FileIterator_init ''example.txt''\<lparr>file := Some blank_line_file\<rparr>"
  let ?f' = "blank_line_file\<lparr>buffer := ''  x  \<newline>''\<rparr>"
  let ?self' = "FileIterator_init ''example.txt''\<lparr>file := Some ?f'\<rparr>"
  have f: "file ?self = Some blank_line_file" by simp
  have o: "\<not> closed blank_line_file" by (simp add: blank_line_file_def)
  have n: "buffer blank_line_file \<noteq> []" by (simp add: blank_line_file_def)
  have sp: "\<forall>c\<in>set (fst (split_line (buffer blank_line_file))). isspace c"
    by (simp add: blank_line_file_def isspace_def)
  have r: "snd (split_line (buffer blank_line_file)) = ''  x  \<newline>''"
    by (simp add: blank_line_file_def)
  have f': "file ?self' = Some ?f'" by simp
  have o': "\<not> closed ?f'" by (simp add: blank_line_file_def)
  have st: "strip ''  x  \<newline>'' = ''x''"
    by (simp add: strip_def isspace_def)
  have first: "FileIterator_next (usage_world, ?self) = (Inr [], usage_world, ?self')"
    using n sp FileIterator_next_strips [OF f o, of usage_world] by (simp add: r)
  have second: "fst (FileIterator_next (usage_world, ?self')) = Inr ''x''
      \<and> \<not> isspace (hd (strip (fst (split_line (buffer ?f')))))
      \<and> \<not> isspace (last (strip (fst (split_line (buffer ?f')))))"
    using FileIterator_next_strips [OF f' o', of usage_world] by (simp add: st)
  have raw: "fst (split_line (buffer blank_line_file)) = '' \<newline>''"
    by (simp add: blank_line_file_def)
  have ws: "isspace CHR '' ''" "isspace CHR ''\<newline>''"
    by (simp_all add: isspace_def)
  from f o n raw ws first second st show ?thesis
    by simp
qed

end
